theory Spec2Isabelle
  imports Main "HOL-Library.Word" "HOL-Library.Log_Nat" "HOL-Library.Monad_Syntax"
begin

unbundle bit_operations_syntax

section \<open>Target and constants\<close>

text \<open>
  The allocator is configured for a 32-bit target: \<open>ALIGN_SIZE_LOG2 = 2\<close> is fixed, so
  \<open>size_t\<close>, \<open>unsigned int\<close> and every pointer are 32-bit words, and
  \<open>sizeof(block_header_t) = 16\<close>.  \<open>OS_MEM_SIZE = 1024\<close>, hence
  \<open>FL_INDEX_MAX = TLSF_LOG2_CEIL(1024) = 10\<close>.
\<close>

type_synonym u8 = "8 word"
type_synonym u32 = "32 word"
type_synonym addr = "32 word"

definition OS_MEM_SIZE :: nat where "OS_MEM_SIZE = 1024"
definition SL_INDEX_COUNT_LOG2 :: nat where "SL_INDEX_COUNT_LOG2 = 5"
definition ALIGN_SIZE_LOG2 :: nat where "ALIGN_SIZE_LOG2 = 2"
definition ALIGN_SIZE :: u32 where "ALIGN_SIZE = push_bit ALIGN_SIZE_LOG2 1"
definition FL_INDEX_MAX :: nat where "FL_INDEX_MAX = 10"
definition SL_INDEX_COUNT :: nat where "SL_INDEX_COUNT = 2 ^ SL_INDEX_COUNT_LOG2"
definition FL_INDEX_SHIFT :: nat where "FL_INDEX_SHIFT = SL_INDEX_COUNT_LOG2 + ALIGN_SIZE_LOG2"
definition FL_INDEX_COUNT :: nat where "FL_INDEX_COUNT = FL_INDEX_MAX - FL_INDEX_SHIFT + 1"
definition SMALL_BLOCK_SIZE :: u32 where "SMALL_BLOCK_SIZE = push_bit FL_INDEX_SHIFT 1"

lemmas tlsf_consts =
  OS_MEM_SIZE_def SL_INDEX_COUNT_LOG2_def ALIGN_SIZE_LOG2_def ALIGN_SIZE_def FL_INDEX_MAX_def
  SL_INDEX_COUNT_def FL_INDEX_SHIFT_def FL_INDEX_COUNT_def SMALL_BLOCK_SIZE_def

text \<open>\<open>sizeof(block_header_t)\<close>, \<open>block_header_overhead\<close>, \<open>block_start_offset\<close>,
  \<open>block_size_min\<close> and \<open>block_size_max\<close>.\<close>

definition sizeof_block_header :: u32 where "sizeof_block_header = 16"
definition block_header_overhead :: u32 where "block_header_overhead = 4"
definition block_start_offset :: u32 where "block_start_offset = 4 + 4"
definition block_size_min :: u32 where "block_size_min = sizeof_block_header - 4"
definition block_size_max :: u32 where "block_size_max = push_bit FL_INDEX_MAX 1"

lemmas tlsf_sizes =
  sizeof_block_header_def block_header_overhead_def block_start_offset_def
  block_size_min_def block_size_max_def

section \<open>Bit scans\<close>

text \<open>\<open>__builtin_clz\<close> on a non-zero 32-bit word: the number of zero bits above the
  highest set bit, scanned from bit 31 downwards.\<close>

fun clz_from :: "nat \<Rightarrow> u32 \<Rightarrow> nat" where
  "clz_from 0 w = 0"
| "clz_from (Suc n) w = (if bit w n then 0 else Suc (clz_from n w))"

definition builtin_clz :: "u32 \<Rightarrow> nat" where
  "builtin_clz w = clz_from 32 w"

text \<open>\<open>__builtin_ffs\<close>: one plus the index of the lowest set bit, 0 for the zero word.\<close>

fun ffs_from :: "nat \<Rightarrow> nat \<Rightarrow> u32 \<Rightarrow> nat" where
  "ffs_from 0 i w = 0"
| "ffs_from (Suc n) i w = (if bit w i then Suc i else ffs_from n (Suc i) w)"

definition builtin_ffs :: "u32 \<Rightarrow> nat" where
  "builtin_ffs w = ffs_from 32 0 w"

definition tlsf_ffs :: "u32 \<Rightarrow> int" where
  "tlsf_ffs w = int (builtin_ffs w) - 1"

definition tlsf_fls :: "u32 \<Rightarrow> int" where
  "tlsf_fls w = (let b = (if w \<noteq> 0 then 32 - int (builtin_clz w) else 0) in b - 1)"

section \<open>Size classes\<close>

definition mapping_insert :: "u32 \<Rightarrow> int \<times> int" where
  "mapping_insert sz =
     (if sz < SMALL_BLOCK_SIZE then
        (0, uint sz div (uint SMALL_BLOCK_SIZE div int SL_INDEX_COUNT))
      else
        (let fl = tlsf_fls sz;
             sl = uint (drop_bit (nat (fl - int SL_INDEX_COUNT_LOG2)) sz)
                    XOR (2 ^ SL_INDEX_COUNT_LOG2)
         in (fl - (int FL_INDEX_SHIFT - 1), sl)))"

definition mapping_search :: "u32 \<Rightarrow> int \<times> int" where
  "mapping_search sz =
     (if sz \<ge> SMALL_BLOCK_SIZE then
        (let round = push_bit (nat (tlsf_fls sz - int SL_INDEX_COUNT_LOG2)) 1 - 1
         in mapping_insert (sz + round))
      else mapping_insert sz)"

section \<open>Byte memory and \<open>os_memcpy\<close>\<close>

type_synonym bytes = "addr \<Rightarrow> u8"

definition load32_raw :: "bytes \<Rightarrow> addr \<Rightarrow> u32" where
  "load32_raw m a =
     ucast (m a) OR push_bit 8 (ucast (m (a + 1))) OR push_bit 16 (ucast (m (a + 2)))
       OR push_bit 24 (ucast (m (a + 3)))"

definition store32_raw :: "bytes \<Rightarrow> addr \<Rightarrow> u32 \<Rightarrow> bytes" where
  "store32_raw m a v =
     m(a := ucast v, a + 1 := ucast (drop_bit 8 v), a + 2 := ucast (drop_bit 16 v),
       a + 3 := ucast (drop_bit 24 v))"

type_synonym cpy = "bytes \<times> addr \<times> addr"

definition COPY8 :: "cpy \<Rightarrow> cpy" where
  "COPY8 st = (case st of (m, d8, s8) \<Rightarrow> (m(d8 := m s8), d8 + 1, s8 + 1))"

definition COPY32 :: "cpy \<Rightarrow> cpy" where
  "COPY32 st = (case st of (m, d32, s32) \<Rightarrow> (store32_raw m d32 (load32_raw m s32), d32 + 4, s32 + 4))"

definition REPEAT8 :: "(cpy \<Rightarrow> cpy) \<Rightarrow> cpy \<Rightarrow> cpy" where
  "REPEAT8 expr = expr ^^ 8"

function os_memcpy_bytes32 :: "u32 \<Rightarrow> cpy \<Rightarrow> u32 \<times> cpy" where
  "os_memcpy_bytes32 len st =
     (if len > 32 then
        os_memcpy_bytes32 (len - 32) (REPEAT8 COPY8 (REPEAT8 COPY8 (REPEAT8 COPY8 (REPEAT8 COPY8 st))))
      else (len, st))"
  by pat_completeness auto
termination
  by (relation "measure (\<lambda>(len, st). unat len)") (auto simp: unat_sub word_less_nat_alt word_le_nat_alt)

function os_memcpy_bytes :: "u32 \<Rightarrow> cpy \<Rightarrow> u32 \<times> cpy" where
  "os_memcpy_bytes len st =
     (if len \<noteq> 0 then os_memcpy_bytes (len - 1) (COPY8 st) else (len, st))"
  by pat_completeness auto
termination
  by (relation "measure (\<lambda>(len, st). unat len)") (auto simp: unat_minus_one unat_gt_0)

function os_memcpy_align :: "u32 \<Rightarrow> u32 \<Rightarrow> cpy \<Rightarrow> u32 \<times> cpy" where
  "os_memcpy_align d_align len st =
     (if d_align \<noteq> 0 \<and> len \<noteq> 0 then os_memcpy_align (d_align - 1) (len - 1) (COPY8 st)
      else (len, st))"
  by pat_completeness auto
termination
  by (relation "measure (\<lambda>(d_align, len, st). unat len)") (auto simp: unat_minus_one unat_gt_0)

function os_memcpy_words32 :: "u32 \<Rightarrow> cpy \<Rightarrow> u32 \<times> cpy" where
  "os_memcpy_words32 len st =
     (if len > 32 then os_memcpy_words32 (len - 32) (REPEAT8 COPY32 st) else (len, st))"
  by pat_completeness auto
termination
  by (relation "measure (\<lambda>(len, st). unat len)") (auto simp: unat_sub word_less_nat_alt word_le_nat_alt)

function os_memcpy_words :: "u32 \<Rightarrow> cpy \<Rightarrow> u32 \<times> cpy" where
  "os_memcpy_words len st =
     (if len > 4 then os_memcpy_words (len - 4) (COPY32 st) else (len, st))"
  by pat_completeness auto
termination
  by (relation "measure (\<lambda>(len, st). unat len)") (auto simp: unat_sub word_less_nat_alt word_le_nat_alt)

declare os_memcpy_bytes32.simps [simp del] os_memcpy_bytes.simps [simp del]
  os_memcpy_align.simps [simp del] os_memcpy_words32.simps [simp del]
  os_memcpy_words.simps [simp del]

definition ALIGN_MASK :: u32 where "ALIGN_MASK = 3"

definition os_memcpy :: "bytes \<Rightarrow> addr \<Rightarrow> addr \<Rightarrow> u32 \<Rightarrow> addr \<times> bytes" where
  "os_memcpy m dst src len =
     (let d_align = dst AND ALIGN_MASK;
          s_align = src AND ALIGN_MASK
      in if s_align \<noteq> d_align then
           (let (len1, st1) = os_memcpy_bytes32 len (m, dst, src);
                (len2, st2) = os_memcpy_bytes len1 st1
            in (dst, fst st2))
         else
           (let (len1, st1) =
                  (if d_align \<noteq> 0 then os_memcpy_align (ALIGN_MASK + 1 - d_align) len (m, dst, src)
                   else (len, (m, dst, src)));
                (len2, st2) = os_memcpy_words32 len1 st1;
                (len3, st3) = os_memcpy_words len2 st2;
                (len4, st4) = os_memcpy_bytes len3 st3
            in (dst, fst st4)))"

fun byte_copy :: "bytes \<Rightarrow> addr \<Rightarrow> addr \<Rightarrow> nat \<Rightarrow> bytes" where
  "byte_copy m d s 0 = m"
| "byte_copy m d s (Suc k) = byte_copy (m(d := m s)) (d + 1) (s + 1) k"

definition gap_ok :: "cpy \<Rightarrow> bool" where
  "gap_ok st = (case st of (m, d, s) \<Rightarrow> d - s \<notin> {1, 2, 3})"

definition steps :: "u32 \<Rightarrow> cpy \<Rightarrow> u32 \<times> cpy \<Rightarrow> bool" where
  "steps len st r = (\<exists>k. snd r = (COPY8 ^^ k) st \<and> unat len = unat (fst r) + k)"

definition no_overlap :: "addr \<Rightarrow> addr \<Rightarrow> nat \<Rightarrow> bool" where
  "no_overlap d s k = (\<forall>i<k. \<forall>j<k. d + of_nat i \<noteq> s + of_nat j)"

section \<open>The timer scheduler\<close>

text \<open>
  A timer descriptor \<open>os_timer_t\<close>.  \<open>timer_cb\<close> is \<open>None\<close> for a null callback;
  \<open>repeat_count\<close> is the \<open>int32_t\<close> field, read as an integer (the code only
  decrements it while it is positive, so it never wraps).
\<close>

record os_timer =
  period :: u32
  last_run :: u32
  timer_cb :: "nat option"
  user_data :: u32
  repeat_count :: int
  paused :: bool

text \<open>
  The scheduler's globals and function statics.  A timer pointer is the address of its list
  node; \<open>os_timer_ll\<close> holds the nodes of \<open>_os_timer_ll\<close> from head to tail.
  Timer callbacks are application code: the model records each invocation in
  \<open>cb_trace\<close> (the timer and the tick at which it ran) and nothing else, so a callback
  changes no timer and neither creates nor deletes one.  The re-read loop of
  \<open>os_tick_get\<close> runs once when no tick interrupt arrives in between, which is the
  only case modelled.
\<close>

type_synonym timer_ptr = nat

record sched =
  os_timer_ll :: "(timer_ptr \<times> os_timer) list"
  os_timer_act :: "timer_ptr option"
  sys_time :: u32
  os_timer_run :: bool
  idle_last :: u8
  timer_deleted :: bool
  timer_created :: bool
  already_running :: bool
  idle_period_start :: u32
  busy_time :: u32
  run_cnt :: u32
  cb_trace :: "(timer_ptr \<times> u32) list"

text \<open>
  Modelled from the spec: \<open>os_ll.c\<close> is not among the sources, only its prototypes in
  \<open>os_ll.h\<close>.  Section 4.3 of the spec: \<open>get_head\<close> is the first node or null,
  \<open>get_next\<close> the node after the given one or null, \<open>remove\<close> unlinks the given
  node.  Reading the link of a node that is not in the list has no defined result
  (\<open>None\<close>).
\<close>

definition os_ll_get_head :: "(timer_ptr \<times> os_timer) list \<Rightarrow> timer_ptr option" where
  "os_ll_get_head ll = (case ll of [] \<Rightarrow> None | (p, t) # rest \<Rightarrow> Some p)"

fun os_ll_get_next :: "(timer_ptr \<times> os_timer) list \<Rightarrow> timer_ptr \<Rightarrow> timer_ptr option option" where
  "os_ll_get_next [] n_act = None"
| "os_ll_get_next ((p, t) # rest) n_act =
     (if p = n_act then Some (os_ll_get_head rest) else os_ll_get_next rest n_act)"

definition os_ll_remove :: "(timer_ptr \<times> os_timer) list \<Rightarrow> timer_ptr \<Rightarrow> (timer_ptr \<times> os_timer) list" where
  "os_ll_remove ll node_p = filter (\<lambda>(p, t). p \<noteq> node_p) ll"

text \<open>Reading and writing the descriptor behind a timer pointer.\<close>

definition timer_at :: "sched \<Rightarrow> timer_ptr \<Rightarrow> os_timer option" where
  "timer_at s p = map_of (os_timer_ll s) p"

fun ll_update :: "(timer_ptr \<times> os_timer) list \<Rightarrow> timer_ptr \<Rightarrow> os_timer \<Rightarrow> (timer_ptr \<times> os_timer) list" where
  "ll_update [] p t = []"
| "ll_update ((q, u) # rest) p t = (if q = p then (q, t) # rest else (q, u) # ll_update rest p t)"

definition timer_write :: "sched \<Rightarrow> timer_ptr \<Rightarrow> os_timer \<Rightarrow> sched" where
  "timer_write s p t = s\<lparr>os_timer_ll := ll_update (os_timer_ll s) p t\<rparr>"

definition os_tick_inc :: "u32 \<Rightarrow> sched \<Rightarrow> sched" where
  "os_tick_inc tick_period s = s\<lparr>sys_time := sys_time s + tick_period\<rparr>"

definition os_tick_get :: "sched \<Rightarrow> u32" where
  "os_tick_get s = sys_time s"

definition os_tick_elaps :: "sched \<Rightarrow> u32 \<Rightarrow> u32" where
  "os_tick_elaps s prev_tick =
     (let act_time = os_tick_get s in
      if act_time \<ge> prev_tick then act_time - prev_tick
      else (0xFFFFFFFF - prev_tick + 1) + act_time)"

definition os_timer_time_remaining :: "sched \<Rightarrow> os_timer \<Rightarrow> u32" where
  "os_timer_time_remaining s timer =
     (let elp = os_tick_elaps s (last_run timer) in
      if elp \<ge> period timer then 0 else period timer - elp)"

definition os_timer_del :: "sched \<Rightarrow> timer_ptr \<Rightarrow> sched" where
  "os_timer_del s timer = s\<lparr>os_timer_ll := os_ll_remove (os_timer_ll s) timer, timer_deleted := True\<rparr>"

text \<open>\<open>timer->timer_cb(timer)\<close>: the invocation is recorded with the current tick.\<close>

definition run_timer_cb :: "sched \<Rightarrow> timer_ptr \<Rightarrow> sched" where
  "run_timer_cb s timer = s\<lparr>cb_trace := cb_trace s @ [(timer, os_tick_get s)]\<rparr>"

definition os_timer_exec :: "sched \<Rightarrow> timer_ptr \<Rightarrow> (bool \<times> sched) option" where
  "os_timer_exec s timer = do {
     t \<leftarrow> timer_at s timer;
     if paused t then Some (False, s)
     else do {
       (exec, s1) \<leftarrow>
         (if os_timer_time_remaining s t = 0 then
            (let original_repeat_count = repeat_count t;
                 t1 = (if repeat_count t > 0 then t\<lparr>repeat_count := repeat_count t - 1\<rparr> else t);
                 t2 = t1\<lparr>last_run := os_tick_get s\<rparr>;
                 s' = timer_write s timer t2;
                 s'' = (if timer_cb t2 \<noteq> None \<and> original_repeat_count \<noteq> 0
                        then run_timer_cb s' timer else s')
             in Some (True, s''))
          else Some (False, s));
       if timer_deleted s1 = False then do {
         t' \<leftarrow> timer_at s1 timer;
         Some (exec, if repeat_count t' = 0 then os_timer_del s1 timer else s1)
       } else Some (exec, s1)
     }
   }"

text \<open>
  The inner \<open>while(_os_timer_act)\<close> loop of \<open>os_timer_handler\<close> and the
  \<open>do ... while(_os_timer_act)\<close> loop around it.  \<open>None\<close> stands for no result:
  a read through a dangling timer pointer, or a loop that does not end.
\<close>

partial_function (option) timer_pass :: "sched \<Rightarrow> sched option" where
  "timer_pass s =
     (case os_timer_act s of
        None \<Rightarrow> Some s
      | Some act \<Rightarrow> do {
          next \<leftarrow> os_ll_get_next (os_timer_ll s) act;
          (exec, s1) \<leftarrow> os_timer_exec s act;
          if exec \<and> (timer_created s1 \<or> timer_deleted s1) then Some s1
          else timer_pass (s1\<lparr>os_timer_act := next\<rparr>)
        })"

partial_function (option) timer_run_all :: "sched \<Rightarrow> sched option" where
  "timer_run_all s = do {
     s1 \<leftarrow> timer_pass (s\<lparr>timer_deleted := False, timer_created := False,
                            os_timer_act := os_ll_get_head (os_timer_ll s)\<rparr>);
     if os_timer_act s1 \<noteq> None then timer_run_all s1 else Some s1
   }"

definition OS_NO_TIMER_READY :: u32 where "OS_NO_TIMER_READY = 0xFFFFFFFF"

definition IDLE_MEAS_PERIOD :: u32 where "IDLE_MEAS_PERIOD = 500"

text \<open>The scan for the next wake-up time, from the head of the list to its end.\<close>

fun time_till_next_scan :: "sched \<Rightarrow> (timer_ptr \<times> os_timer) list \<Rightarrow> u32 \<Rightarrow> u32" where
  "time_till_next_scan s [] time_till_next = time_till_next"
| "time_till_next_scan s ((p, t) # rest) time_till_next =
     (if \<not> paused t then
        (let delay = os_timer_time_remaining s t in
         time_till_next_scan s rest (if delay < time_till_next then delay else time_till_next))
      else time_till_next_scan s rest time_till_next)"

definition os_timer_handler :: "sched \<Rightarrow> (u32 \<times> sched) option" where
  "os_timer_handler s =
     (if already_running s then Some (1, s)
      else
        (let s = s\<lparr>already_running := True\<rparr> in
         if os_timer_run s = False then Some (1, s\<lparr>already_running := False\<rparr>)
         else
           (let handler_start = os_tick_get s;
                s = (if handler_start = 0 then
                       (let c = run_cnt s + 1 in s\<lparr>run_cnt := (if c > 100 then 0 else c)\<rparr>)
                     else s)
            in do {
              s \<leftarrow> timer_run_all s;
              let time_till_next = time_till_next_scan s (os_timer_ll s) OS_NO_TIMER_READY;
                  s = s\<lparr>busy_time := busy_time s + os_tick_elaps s handler_start\<rparr>;
                  idle_period_time = os_tick_elaps s (idle_period_start s);
                  s = (if idle_period_time \<ge> IDLE_MEAS_PERIOD then
                         (let il = (ucast ((busy_time s * 100) div idle_period_time) :: u8);
                              il = (if il > 100 then 0 else 100 - il)
                          in s\<lparr>idle_last := il, busy_time := 0, idle_period_start := os_tick_get s\<rparr>)
                       else s)
              in Some (time_till_next, s\<lparr>already_running := False\<rparr>)
            })))"

text \<open>Auxiliary notions for the proofs: the node addresses in list order, the firing
  step of \<open>os_timer_exec\<close> on its own, invariants kept by \<open>os_timer_exec\<close> and
  independent of the bookkeeping fields, repeated handler calls, sequences of
  \<open>os_tick_inc\<close> and \<open>os_timer_handler\<close> calls, and the ticks at which the
  callback of one timer was invoked.\<close>

definition keys :: "sched \<Rightarrow> timer_ptr list" where
  "keys s = map fst (os_timer_ll s)"

text \<open>The state after the firing step of os_timer_exec, before the deletion check.\<close>

definition fire_step :: "sched \<Rightarrow> timer_ptr \<Rightarrow> os_timer \<Rightarrow> bool \<times> sched" where
  "fire_step s p t =
     (if os_timer_time_remaining s t = 0 then
        (True,
         let t2 = (if repeat_count t > 0 then t\<lparr>repeat_count := repeat_count t - 1\<rparr> else t)
                    \<lparr>last_run := os_tick_get s\<rparr>;
             s' = timer_write s p t2
         in if timer_cb t \<noteq> None \<and> repeat_count t \<noteq> 0 then run_timer_cb s' p else s')
      else (False, s))"

definition indep :: "(sched \<Rightarrow> bool) \<Rightarrow> bool" where
  "indep I = (\<forall>s s'. os_timer_ll s' = os_timer_ll s \<longrightarrow> sys_time s' = sys_time s \<longrightarrow>
                 cb_trace s' = cb_trace s \<longrightarrow> I s \<longrightarrow> I s')"

definition exec_inv :: "(sched \<Rightarrow> bool) \<Rightarrow> bool" where
  "exec_inv I = (\<forall>s p e s1. I s \<longrightarrow> distinct (keys s) \<longrightarrow> p \<in> set (keys s) \<longrightarrow>
                   os_timer_exec s p = Some (e, s1) \<longrightarrow> I s1)"

fun handler_repeat :: "nat \<Rightarrow> sched \<Rightarrow> sched option" where
  "handler_repeat 0 s = Some s"
| "handler_repeat (Suc n) s = do { (r, s1) \<leftarrow> os_timer_handler s; handler_repeat n s1 }"

definition cb_calls :: "sched \<Rightarrow> timer_ptr \<Rightarrow> u32 list" where
  "cb_calls s p = map snd (filter (\<lambda>e. fst e = p) (cb_trace s))"

definition paused_inv :: "timer_ptr \<Rightarrow> os_timer \<Rightarrow> u32 list \<Rightarrow> sched \<Rightarrow> bool" where
  "paused_inv p t calls s = (timer_at s p = Some t \<and> cb_calls s p = calls)"

datatype timer_op = TickInc u32 | Handler

fun run_ops :: "timer_op list \<Rightarrow> sched \<Rightarrow> sched option" where
  "run_ops [] s = Some s"
| "run_ops (TickInc n # ops) s = run_ops ops (os_tick_inc n s)"
| "run_ops (Handler # ops) s = do { (r, s1) \<leftarrow> os_timer_handler s; run_ops ops s1 }"

definition spaced :: "u32 \<Rightarrow> u32 list \<Rightarrow> bool" where
  "spaced P ts = (\<forall>i. Suc i < length ts \<longrightarrow> P \<le> ts ! Suc i - ts ! i)"

definition new_calls :: "nat \<Rightarrow> sched \<Rightarrow> timer_ptr \<Rightarrow> u32 list" where
  "new_calls n0 s p = drop n0 (cb_calls s p)"

definition count_inv :: "timer_ptr \<Rightarrow> u32 \<Rightarrow> int \<Rightarrow> nat option \<Rightarrow> nat \<Rightarrow> sched \<Rightarrow> bool" where
  "count_inv p P k cb0 n0 s =
     (let calls = new_calls n0 s p in
      n0 \<le> length (cb_calls s p) \<and> spaced P calls \<and> int (length calls) \<le> k
      \<and> (cb0 = None \<longrightarrow> calls = [])
      \<and> (case timer_at s p of None \<Rightarrow> True
          | Some t \<Rightarrow> period t = P \<and> timer_cb t = cb0 \<and> 0 \<le> repeat_count t
              \<and> int (length calls) + repeat_count t \<le> k
              \<and> (calls \<noteq> [] \<and> 0 < repeat_count t \<longrightarrow> last_run t = last calls)))"

definition fired_timer :: "sched \<Rightarrow> os_timer \<Rightarrow> os_timer" where
  "fired_timer s t =
     (if os_timer_time_remaining s t = 0 then
        (if repeat_count t > 0 then t\<lparr>repeat_count := repeat_count t - 1\<rparr> else t)
          \<lparr>last_run := sys_time s\<rparr>
      else t)"

text \<open>A scheduler holding one timer at node address 1, with the tick at 0.\<close>

definition demo_timer :: os_timer where
  "demo_timer = \<lparr>period = 10, last_run = 0, timer_cb = Some 0, user_data = 0,
                 repeat_count = 3, paused = False\<rparr>"

definition demo_sched :: "os_timer \<Rightarrow> sched" where
  "demo_sched t = \<lparr>os_timer_ll = [(1, t)], os_timer_act = None, sys_time = 0,
     os_timer_run = True, idle_last = 0, timer_deleted = False, timer_created = False,
     already_running = False, idle_period_start = 0, busy_time = 0, run_cnt = 0, cb_trace = []\<rparr>"

section \<open>Bit scan facts\<close>

lemma clz_from_le: "clz_from n w \<le> n"
  by (induction n) auto

lemma bit_nat_ge: "bit (m::nat) n \<Longrightarrow> 2 ^ n \<le> m"
  by (rule ccontr) (simp add: bit_nat_def not_le)

lemma not_bit_nat_lt: "\<not> bit (m::nat) n \<Longrightarrow> m < 2 ^ Suc n \<Longrightarrow> m < 2 ^ n"
proof (rule ccontr)
  assume a: "\<not> bit m n" "m < 2 ^ Suc n" "\<not> m < 2 ^ n"
  then have "m div 2 ^ n < 2" by (simp add: less_mult_imp_div_less)
  moreover have "m div 2 ^ n \<noteq> 0" using a(3) by (simp add: div_eq_0_iff)
  ultimately have "m div 2 ^ n = 1" by simp
  with a(1) show False by (simp add: bit_nat_def)
qed

lemma bit_unat_u32: "bit (unat (w::u32)) n = bit w n"
  by (simp add: bit_unsigned_iff)

lemma clz_from_bounds:
  "unat w < 2 ^ n \<Longrightarrow> w \<noteq> 0 \<Longrightarrow>
     clz_from n w < n \<and> 2 ^ (n - clz_from n w - 1) \<le> unat w \<and> unat w < 2 ^ (n - clz_from n w)"
proof (induction n)
  case 0
  then show ?case by (simp add: unat_eq_0)
next
  case (Suc n)
  show ?case
  proof (cases "bit w n")
    case True
    then have "2 ^ n \<le> unat w" using bit_nat_ge[of "unat w" n] by (simp add: bit_unat_u32)
    with True Suc.prems show ?thesis by simp
  next
    case False
    then have "unat w < 2 ^ n"
      using not_bit_nat_lt[of "unat w" n] Suc.prems(1) by (simp add: bit_unat_u32)
    from Suc.IH[OF this Suc.prems(2)] False show ?thesis
      by (auto simp: Suc_diff_le)
  qed
qed

lemma tlsf_fls_bounds:
  assumes "w \<noteq> 0"
  shows "0 \<le> tlsf_fls w" "tlsf_fls w < 32"
    "2 ^ nat (tlsf_fls w) \<le> unat w" "unat w < 2 ^ (nat (tlsf_fls w) + 1)"
proof -
  have lt: "unat w < 2 ^ 32" using unsigned_less[of w] by simp
  from clz_from_bounds[OF lt assms]
  have c: "clz_from 32 w < 32" "2 ^ (32 - clz_from 32 w - 1) \<le> unat w"
    "unat w < 2 ^ (32 - clz_from 32 w)" by auto
  have e: "nat (tlsf_fls w) = 32 - clz_from 32 w - 1"
    using c(1) assms by (simp add: tlsf_fls_def builtin_clz_def)
  show "0 \<le> tlsf_fls w" "tlsf_fls w < 32" using c(1) assms
    by (simp_all add: tlsf_fls_def builtin_clz_def)
  show "2 ^ nat (tlsf_fls w) \<le> unat w" using c(2) e by simp
  have "nat (tlsf_fls w) + 1 = 32 - clz_from 32 w" using e c(1) by simp
  then show "unat w < 2 ^ (nat (tlsf_fls w) + 1)" using c(3) by simp
qed

lemma tlsf_fls_floor_log:
  assumes "w \<noteq> 0"
  shows "tlsf_fls w = \<lfloor>log 2 (real (unat w))\<rfloor>"
proof -
  note b = tlsf_fls_bounds[OF assms]
  have pos: "0 < unat w" using assms by (simp add: unat_gt_0)
  have "floorlog 2 (unat w) = nat (tlsf_fls w) + 1"
  proof (rule antisym)
    show "floorlog 2 (unat w) \<le> nat (tlsf_fls w) + 1"
      using b(4) by (intro floorlog_leI) auto
    show "nat (tlsf_fls w) + 1 \<le> floorlog 2 (unat w)"
      using b(3) by (intro floorlog_geI) auto
  qed
  then have "nat \<lfloor>log 2 (real (unat w))\<rfloor> = nat (tlsf_fls w)"
    using pos by (simp add: floorlog_def)
  moreover have "0 \<le> \<lfloor>log 2 (real (unat w))\<rfloor>"
  proof -
    have "1 \<le> real (unat w)"
      using of_nat_mono[of 1 "unat w", where 'a=real] pos by simp
    then have "0 \<le> log 2 (real (unat w))" by (subst zero_le_log_cancel_iff) auto
    then show ?thesis by simp
  qed
  ultimately show ?thesis using b(1) by (metis nat_0_le)
qed

section \<open>Facts about \<open>os_memcpy\<close>\<close>

lemma load32_raw_byte0: "ucast (load32_raw m a) = m a"
  unfolding load32_raw_def
  by (rule bit_word_eqI) (auto simp: bit_simps dest: bit_imp_le_length)

lemma load32_raw_byte1: "ucast (drop_bit 8 (load32_raw m a)) = m (a + 1)"
  unfolding load32_raw_def
  by (rule bit_word_eqI) (auto simp: bit_simps dest: bit_imp_le_length)

lemma load32_raw_byte2: "ucast (drop_bit 16 (load32_raw m a)) = m (a + 2)"
  unfolding load32_raw_def
  by (rule bit_word_eqI) (auto simp: bit_simps dest: bit_imp_le_length)

lemma load32_raw_byte3: "ucast (drop_bit 24 (load32_raw m a)) = m (a + 3)"
  unfolding load32_raw_def
  by (rule bit_word_eqI) (auto simp: bit_simps dest: bit_imp_le_length)

lemma ucast_store_bytes:
  "(ucast (ucast (v::u32) :: u8) :: u32) OR push_bit 8 (ucast (ucast (drop_bit 8 v) :: u8))
     OR push_bit 16 (ucast (ucast (drop_bit 16 v) :: u8))
     OR push_bit 24 (ucast (ucast (drop_bit 24 v) :: u8)) = v"
proof (rule bit_word_eqI)
  fix n assume "n < LENGTH(32)"
  then consider "n < 8" | "8 \<le> n \<and> n < 16" | "16 \<le> n \<and> n < 24" | "24 \<le> n \<and> n < 32"
    by fastforce
  then show "bit ((ucast (ucast v :: u8) :: u32) OR push_bit 8 (ucast (ucast (drop_bit 8 v) :: u8))
     OR push_bit 16 (ucast (ucast (drop_bit 16 v) :: u8))
     OR push_bit 24 (ucast (ucast (drop_bit 24 v) :: u8))) n = bit v n"
    by cases (auto simp: bit_simps)
qed

lemma load32_store32_same: "load32_raw (store32_raw m a v) a = v"
  unfolding load32_raw_def store32_raw_def
  by (simp add: ucast_store_bytes)

lemma COPY32_eq:
  assumes "d - s \<notin> {1, 2, 3}"
  shows "COPY32 (m, d, s) = (COPY8 ^^ 4) (m, d, s)"
proof -
  have f: "s + 1 \<noteq> d" "s + 2 \<noteq> d" "s + 3 \<noteq> d" "s + 2 \<noteq> d + 1" "s + 3 \<noteq> d + 1" "s + 3 \<noteq> d + 2"
    using assms by auto
  have n4: "(4::nat) = Suc (Suc (Suc (Suc 0)))" by simp
  show ?thesis
    unfolding n4 using f
    by (simp add: COPY32_def COPY8_def store32_raw_def load32_raw_byte0 load32_raw_byte1 load32_raw_byte2 load32_raw_byte3 add.assoc)
qed

lemma steps_refl: "steps len st (len, st)"
  unfolding steps_def by (intro exI[of _ 0]) simp

lemma funpow_join: "(f ^^ a) ((f ^^ b) x) = (f ^^ (a + b)) x"
  by (simp add: funpow_add)

lemma steps_trans:
  "steps len st (len1, st1) \<Longrightarrow> steps len1 st1 r \<Longrightarrow> steps len st r"
  unfolding steps_def
  apply clarsimp
  apply (simp add: funpow_join)
  done

lemma steps_first:
  assumes "unat len' + k = unat len" "steps len' ((COPY8 ^^ k) st) r"
  shows "steps len st r"
  using assms unfolding steps_def
  apply clarsimp
  subgoal for k2 by (intro exI[of _ "k2 + k"]) (simp add: funpow_join)
  done

lemma ptr_gap_step: "(d + 1) - (s + 1) = d - (s::addr)"
  by simp

lemma gap_ok_COPY8: "gap_ok (COPY8 st) = gap_ok st"
  by (cases st) (simp only: gap_ok_def COPY8_def prod.case ptr_gap_step)

lemma gap_ok_funpow: "gap_ok ((COPY8 ^^ k) st) = gap_ok st"
  by (induction k) (simp_all add: gap_ok_COPY8)

lemma COPY32_funpow:
  assumes "gap_ok st"
  shows "COPY32 st = (COPY8 ^^ 4) st"
proof -
  obtain m d s where st: "st = (m, d, s)" by (cases st) auto
  from assms have "d - s \<notin> {1, 2, 3}" unfolding st gap_ok_def by simp
  then show ?thesis unfolding st by (rule COPY32_eq)
qed

lemma COPY32_pow: "gap_ok st \<Longrightarrow> (COPY32 ^^ j) st = (COPY8 ^^ (4 * j)) st"
proof (induction j)
  case 0 then show ?case by simp
next
  case (Suc j)
  have "(COPY32 ^^ Suc j) st = COPY32 ((COPY8 ^^ (4 * j)) st)" using Suc by simp
  also have "\<dots> = (COPY8 ^^ 4) ((COPY8 ^^ (4 * j)) st)"
    using Suc.prems by (intro COPY32_funpow) (simp add: gap_ok_funpow)
  also have "\<dots> = (COPY8 ^^ (4 * Suc j)) st"
    by (simp add: funpow_join)
  finally show ?case .
qed

lemma REPEAT8_COPY8_4:
  "REPEAT8 COPY8 (REPEAT8 COPY8 (REPEAT8 COPY8 (REPEAT8 COPY8 st))) = (COPY8 ^^ 32) st"
proof -
  have "(COPY8 ^^ 32) st = (COPY8 ^^ (8 + (8 + (8 + 8)))) st" by simp
  also have "\<dots> = REPEAT8 COPY8 (REPEAT8 COPY8 (REPEAT8 COPY8 (REPEAT8 COPY8 st)))"
    unfolding REPEAT8_def by (simp only: funpow_add o_apply)
  finally show ?thesis by simp
qed

lemma REPEAT8_COPY32: "gap_ok st \<Longrightarrow> REPEAT8 COPY32 st = (COPY8 ^^ 32) st"
  unfolding REPEAT8_def by (simp add: COPY32_pow)

lemma sub32: "(32::u32) < len \<Longrightarrow> unat (len - 32) + 32 = unat len"
  by (simp add: unat_sub word_less_nat_alt word_le_nat_alt)

lemma sub4: "(4::u32) < len \<Longrightarrow> unat (len - 4) + 4 = unat len"
  by (simp add: unat_sub word_less_nat_alt word_le_nat_alt)

lemma sub1: "(len::u32) \<noteq> 0 \<Longrightarrow> unat (len - 1) + 1 = unat len"
  by (simp add: unat_minus_one unat_gt_0 Suc_leI)

lemma steps_bytes32: "steps len st (os_memcpy_bytes32 len st)"
proof (induction len st rule: os_memcpy_bytes32.induct)
  case (1 len st)
  show ?case
  proof (cases "32 < len")
    case True
    from 1[OF True] have "steps (len - 32) ((COPY8 ^^ 32) st) (os_memcpy_bytes32 len st)"
      using True by (subst os_memcpy_bytes32.simps) (simp add: REPEAT8_COPY8_4)
    then show ?thesis by (rule steps_first[OF sub32[OF True]])
  next
    case False
    then show ?thesis by (subst os_memcpy_bytes32.simps) (simp add: steps_refl)
  qed
qed

lemma steps_bytes: "steps len st (os_memcpy_bytes len st)"
proof (induction len st rule: os_memcpy_bytes.induct)
  case (1 len st)
  show ?case
  proof (cases "len \<noteq> 0")
    case True
    from 1[OF True] have "steps (len - 1) ((COPY8 ^^ 1) st) (os_memcpy_bytes len st)"
      using True by (subst os_memcpy_bytes.simps) simp
    then show ?thesis by (rule steps_first[OF sub1[OF True]])
  next
    case False
    then show ?thesis by (subst os_memcpy_bytes.simps) (simp add: steps_refl)
  qed
qed

lemma bytes_done: "fst (os_memcpy_bytes len st) = 0"
  by (induction len st rule: os_memcpy_bytes.induct) (subst os_memcpy_bytes.simps, simp)

lemma steps_align: "steps len st (os_memcpy_align d_align len st)"
proof (induction d_align len st rule: os_memcpy_align.induct)
  case (1 d_align len st)
  show ?case
  proof (cases "d_align \<noteq> 0 \<and> len \<noteq> 0")
    case True
    then have l: "len \<noteq> 0" by simp
    from 1[OF True] have "steps (len - 1) ((COPY8 ^^ 1) st) (os_memcpy_align d_align len st)"
      using True by (subst os_memcpy_align.simps) simp
    then show ?thesis by (rule steps_first[OF sub1[OF l]])
  next
    case False
    then show ?thesis by (subst os_memcpy_align.simps) (auto simp add: steps_refl)
  qed
qed

lemma steps_words32: "(4 < len \<longrightarrow> gap_ok st) \<Longrightarrow> steps len st (os_memcpy_words32 len st)"
proof (induction len st rule: os_memcpy_words32.induct)
  case (1 len st)
  show ?case
  proof (cases "32 < len")
    case True
    have "(4::u32) < 32" by simp
    then have "4 < len" using True by (rule less_trans)
    then have g: "gap_ok st" using 1(2) by blast
    have "steps (len - 32) (REPEAT8 COPY32 st) (os_memcpy_words32 (len - 32) (REPEAT8 COPY32 st))"
      using g by (intro 1(1)[OF True]) (simp add: REPEAT8_COPY32 gap_ok_funpow)
    then have "steps (len - 32) ((COPY8 ^^ 32) st) (os_memcpy_words32 len st)"
      using True g by (subst os_memcpy_words32.simps) (simp add: REPEAT8_COPY32)
    then show ?thesis by (rule steps_first[OF sub32[OF True]])
  next
    case False
    then show ?thesis by (subst os_memcpy_words32.simps) (simp add: steps_refl)
  qed
qed

lemma steps_words: "(4 < len \<longrightarrow> gap_ok st) \<Longrightarrow> steps len st (os_memcpy_words len st)"
proof (induction len st rule: os_memcpy_words.induct)
  case (1 len st)
  show ?case
  proof (cases "4 < len")
    case True
    then have g: "gap_ok st" using 1(2) by blast
    have "steps (len - 4) (COPY32 st) (os_memcpy_words (len - 4) (COPY32 st))"
      using g by (intro 1(1)[OF True]) (simp add: COPY32_funpow gap_ok_funpow)
    then have "steps (len - 4) ((COPY8 ^^ 4) st) (os_memcpy_words len st)"
      using True g by (subst os_memcpy_words.simps) (simp add: COPY32_funpow)
    then show ?thesis by (rule steps_first[OF sub4[OF True]])
  next
    case False
    then show ?thesis by (subst os_memcpy_words.simps) (simp add: steps_refl)
  qed
qed

lemma funpow_COPY8:
  "(COPY8 ^^ k) (m, d, s) = (byte_copy m d s k, d + of_nat k, s + of_nat k)"
proof (induction k arbitrary: m d s)
  case 0
  then show ?case by simp
next
  case (Suc k)
  have "(COPY8 ^^ Suc k) (m, d, s) = (COPY8 ^^ k) (COPY8 (m, d, s))"
    by (simp only: funpow_Suc_right o_apply)
  also have "COPY8 (m, d, s) = (m(d := m s), d + 1, s + 1)"
    by (simp add: COPY8_def)
  also have "(COPY8 ^^ k) (m(d := m s), d + 1, s + 1)
      = (byte_copy (m(d := m s)) (d + 1) (s + 1) k, d + 1 + of_nat k, s + 1 + of_nat k)"
    by (rule Suc)
  finally show ?case by (simp add: ac_simps)
qed

lemma byte_copy_outside:
  "(\<forall>i<k. a \<noteq> d + of_nat i) \<Longrightarrow> byte_copy m d s k a = m a"
proof (induction k arbitrary: m d s)
  case 0
  then show ?case by simp
next
  case (Suc k)
  have a0: "a \<noteq> d" using Suc.prems[rule_format, of 0] by simp
  have "\<forall>i<k. a \<noteq> d + 1 + of_nat i"
  proof (intro allI impI)
    fix i assume "i < k"
    then show "a \<noteq> d + 1 + of_nat i" using Suc.prems[rule_format, of "Suc i"]
      by (simp add: ac_simps)
  qed
  from Suc.IH[OF this] a0 show ?case by simp
qed

lemma no_overlap_Suc: "no_overlap d s (Suc k) \<Longrightarrow> no_overlap (d + 1) (s + 1) k"
  unfolding no_overlap_def
proof (intro allI impI)
  fix i j assume h: "\<forall>i<Suc k. \<forall>j<Suc k. d + of_nat i \<noteq> s + of_nat j" and ij: "i < k" "j < k"
  from h[rule_format, of "Suc i" "Suc j"] ij
  show "d + 1 + of_nat i \<noteq> s + 1 + of_nat j" by (simp add: ac_simps)
qed

lemma byte_copy_inside:
  "no_overlap d s k \<Longrightarrow> k \<le> 2 ^ 32 \<Longrightarrow> i < k \<Longrightarrow>
     byte_copy m d s k (d + of_nat i) = m (s + of_nat i)"
proof (induction k arbitrary: m d s i)
  case 0
  then show ?case by simp
next
  case (Suc k)
  note no = no_overlap_Suc[OF Suc.prems(1)]
  show ?case
  proof (cases i)
    case 0
    have "\<forall>j<k. d \<noteq> d + 1 + of_nat j"
    proof (intro allI impI)
      fix j assume "j < k"
      then have "Suc j < 2 ^ 32" using Suc.prems(2) by simp
      then have "(of_nat (Suc j) :: u32) \<noteq> 0" by (intro of_nat_neq_0) simp_all
      then show "d \<noteq> d + 1 + of_nat j" by (simp add: add.assoc)
    qed
    then have "byte_copy (m(d := m s)) (d + 1) (s + 1) k d = (m(d := m s)) d"
      by (rule byte_copy_outside)
    then show ?thesis using 0 by simp
  next
    case (Suc i')
    then have i': "i' < k" using Suc.prems(3) by simp
    have k: "k \<le> 2 ^ 32" using Suc.prems(2) by simp
    have ne: "s + of_nat (Suc i') \<noteq> d"
      using Suc.prems(1)[unfolded no_overlap_def, rule_format, of 0 "Suc i'"] i'
      by (auto simp del: of_nat_Suc)
    have "byte_copy (m(d := m s)) (d + 1) (s + 1) k (d + 1 + of_nat i')
            = (m(d := m s)) (s + 1 + of_nat i')"
      by (rule Suc.IH[OF no k i'])
    also have "\<dots> = m (s + of_nat (Suc i'))" using ne by (simp add: ac_simps)
    finally show ?thesis using Suc by (simp add: ac_simps)
  qed
qed

lemma no_overlap_gap_ok:
  assumes "no_overlap d s (unat (n::u32))" "4 < n"
  shows "gap_ok (m, d, s)"
proof -
  have n: "4 < unat n" using assms(2) by (simp add: word_less_nat_alt)
  have "d \<noteq> s + 1" "d \<noteq> s + 2" "d \<noteq> s + 3"
    using assms(1)[unfolded no_overlap_def, rule_format, of 0 1]
      assms(1)[unfolded no_overlap_def, rule_format, of 0 2]
      assms(1)[unfolded no_overlap_def, rule_format, of 0 3] n by simp_all
  then show ?thesis unfolding gap_ok_def by (simp add: diff_eq_eq add.commute)
qed

lemma steps_keep_gap:
  assumes "steps (n::u32) st0 (l1, st1)" "4 < n \<longrightarrow> gap_ok st0"
  shows "4 < l1 \<longrightarrow> gap_ok st1"
proof
  assume l: "4 < l1"
  from assms(1) obtain k where k: "st1 = (COPY8 ^^ k) st0" "unat n = unat l1 + k"
    unfolding steps_def by auto
  from l k(2) have "4 < n" by (simp add: word_less_nat_alt)
  with assms(2) show "gap_ok st1" by (simp add: k(1) gap_ok_funpow)
qed

lemma steps_zero:
  assumes "steps n st0 (0, st1)"
  shows "st1 = (COPY8 ^^ unat n) st0"
  using assms unfolding steps_def by auto

lemma os_memcpy_mem:
  assumes "no_overlap d s (unat n)"
  shows "snd (os_memcpy m d s n) = byte_copy m d s (unat n)"
proof -
  let ?st0 = "(m, d, s)"
  have g0: "4 < n \<longrightarrow> gap_ok ?st0" using no_overlap_gap_ok[OF assms] by blast
  show ?thesis
  proof (cases "s AND ALIGN_MASK \<noteq> d AND ALIGN_MASK")
    case True
    obtain l1 st1 where r1: "os_memcpy_bytes32 n ?st0 = (l1, st1)" by (metis surj_pair)
    obtain l2 st2 where r2: "os_memcpy_bytes l1 st1 = (l2, st2)" by (metis surj_pair)
    have z: "l2 = 0" using bytes_done[of l1 st1] r2 by simp
    have "steps n ?st0 (l1, st1)" using steps_bytes32[of n ?st0] r1 by simp
    moreover have "steps l1 st1 (0, st2)" using steps_bytes[of l1 st1] r2 z by simp
    ultimately have "steps n ?st0 (0, st2)" by (rule steps_trans)
    then have "st2 = (COPY8 ^^ unat n) ?st0" by (rule steps_zero)
    then have "fst st2 = byte_copy m d s (unat n)" by (simp add: funpow_COPY8)
    moreover have "snd (os_memcpy m d s n) = fst st2"
      using True by (simp add: os_memcpy_def Let_def r1 r2)
    ultimately show ?thesis by simp
  next
    case False
    define r where "r = (if d AND ALIGN_MASK \<noteq> 0
        then os_memcpy_align (ALIGN_MASK + 1 - (d AND ALIGN_MASK)) n ?st0 else (n, ?st0))"
    obtain l1 st1 where r1: "r = (l1, st1)" by (metis surj_pair)
    obtain l2 st2 where r2: "os_memcpy_words32 l1 st1 = (l2, st2)" by (metis surj_pair)
    obtain l3 st3 where r3: "os_memcpy_words l2 st2 = (l3, st3)" by (metis surj_pair)
    obtain l4 st4 where r4: "os_memcpy_bytes l3 st3 = (l4, st4)" by (metis surj_pair)
    have z: "l4 = 0" using bytes_done[of l3 st3] r4 by simp
    have s1: "steps n ?st0 (l1, st1)"
      using steps_align[of n ?st0 "ALIGN_MASK + 1 - (d AND ALIGN_MASK)"] steps_refl[of n ?st0] r1
      unfolding r_def by (auto split: if_splits)
    note g1 = steps_keep_gap[OF s1 g0]
    have s2: "steps l1 st1 (l2, st2)" using steps_words32[OF g1] r2 by simp
    have s12: "steps n ?st0 (l2, st2)" using s1 s2 by (rule steps_trans)
    note g2 = steps_keep_gap[OF s12 g0]
    have s3: "steps l2 st2 (l3, st3)" using steps_words[OF g2] r3 by simp
    have s13: "steps n ?st0 (l3, st3)" using s12 s3 by (rule steps_trans)
    have s4: "steps l3 st3 (0, st4)" using steps_bytes[of l3 st3] r4 z by simp
    have "steps n ?st0 (0, st4)" using s13 s4 by (rule steps_trans)
    then have "st4 = (COPY8 ^^ unat n) ?st0" by (rule steps_zero)
    then have "fst st4 = byte_copy m d s (unat n)" by (simp add: funpow_COPY8)
    moreover have "snd (os_memcpy m d s n) = fst st4"
      using False r1 unfolding r_def by (simp add: os_memcpy_def Let_def r2 r3 r4)
    ultimately show ?thesis by simp
  qed
qed

lemma os_memcpy_ret: "fst (os_memcpy m d s n) = d"
  by (simp add: os_memcpy_def Let_def split: prod.splits)

lemma word_of_nat_neq:
  "a < 2 ^ 32 \<Longrightarrow> b < 2 ^ 32 \<Longrightarrow> a \<noteq> b \<Longrightarrow> (of_nat a :: u32) \<noteq> of_nat b"
  by (simp add: word_of_nat_eq_iff take_bit_nat_eq_self)

section \<open>Facts about the timer scheduler\<close>

lemma map_of_ll_update:
  "map_of (ll_update ll p t) q = (if q = p \<and> p \<in> fst ` set ll then Some t else map_of ll q)"
  by (induction ll) force+

lemma keys_ll_update: "map fst (ll_update ll p t) = map fst ll"
  by (induction ll) auto

lemma ll_update_split:
  "p \<notin> fst ` set pre \<Longrightarrow> ll_update (pre @ (p, t) # rest) p t' = pre @ (p, t') # rest"
  by (induction pre) auto

lemma os_ll_remove_split:
  "p \<notin> fst ` set pre \<Longrightarrow> p \<notin> fst ` set rest \<Longrightarrow>
     os_ll_remove (pre @ (p, t) # rest) p = pre @ rest"
proof -
  assume a: "p \<notin> fst ` set pre" "p \<notin> fst ` set rest"
  have "filter (\<lambda>(q, t). q \<noteq> p) xs = xs" if "p \<notin> fst ` set xs" for xs :: "(timer_ptr \<times> os_timer) list"
    using that by (induction xs) auto
  from this[OF a(1)] this[OF a(2)] show ?thesis by (simp add: os_ll_remove_def)
qed

lemma map_of_os_ll_remove:
  "map_of (os_ll_remove ll p) q = (if q = p then None else map_of ll q)"
  unfolding os_ll_remove_def by (induction ll) auto

lemma keys_os_ll_remove: "map fst (os_ll_remove ll p) = filter (\<lambda>q. q \<noteq> p) (map fst ll)"
  unfolding os_ll_remove_def by (induction ll) auto

lemma os_ll_get_next_split:
  "p \<notin> fst ` set pre \<Longrightarrow> os_ll_get_next (pre @ (p, t) # rest) p = Some (os_ll_get_head rest)"
  by (induction pre) auto

lemma map_of_split:
  "p \<notin> fst ` set pre \<Longrightarrow> map_of (pre @ (p, t) # rest) p = Some t"
  by (induction pre) auto

lemma os_tick_elaps_eq: "os_tick_elaps s prev = sys_time s - prev"
  by (simp add: os_tick_elaps_def os_tick_get_def Let_def)

lemma exec_paused:
  "timer_at s p = Some t \<Longrightarrow> paused t \<Longrightarrow> os_timer_exec s p = Some (False, s)"
  by (simp add: os_timer_exec_def)

lemma exec_unpaused:
  assumes "timer_at s p = Some t" "\<not> paused t"
  shows "os_timer_exec s p =
          (let (e, s1) = fire_step s p t in
           Some (e, if \<not> timer_deleted s \<and> repeat_count (the (timer_at s1 p)) = 0
                    then os_timer_del s1 p else s1))"
proof -
  have in_keys: "p \<in> fst ` set (os_timer_ll s)"
    using assms(1) by (auto simp: timer_at_def dest: map_of_SomeD intro: rev_image_eqI)
  show ?thesis
    using assms in_keys
    by (auto simp: os_timer_exec_def fire_step_def Let_def timer_at_def timer_write_def
        run_timer_cb_def map_of_ll_update)
qed

lemma timer_at_split:
  "os_timer_ll s = pre @ (p, t) # rest \<Longrightarrow> distinct (keys s) \<Longrightarrow> timer_at s p = Some t"
proof -
  assume ll: "os_timer_ll s = pre @ (p, t) # rest" and d: "distinct (keys s)"
  have np: "p \<notin> fst ` set pre" using ll d by (auto simp: keys_def)
  show ?thesis unfolding timer_at_def ll by (rule map_of_split[OF np])
qed

lemma exec_shape:
  assumes ll: "os_timer_ll s = pre @ (p, t) # rest" and d: "distinct (keys s)"
    and ex: "os_timer_exec s p = Some (e, s1)"
  shows "((\<exists>t'. os_timer_ll s1 = pre @ (p, t') # rest) \<and> timer_deleted s1 = timer_deleted s
          \<or> os_timer_ll s1 = pre @ rest \<and> timer_deleted s1 \<and> \<not> timer_deleted s)
         \<and> timer_created s1 = timer_created s \<and> sys_time s1 = sys_time s
         \<and> os_timer_act s1 = os_timer_act s"
proof -
  have np: "p \<notin> fst ` set pre" "p \<notin> fst ` set rest"
    using ll d by (auto simp: keys_def)
  have at: "timer_at s p = Some t" by (rule timer_at_split[OF ll d])
  show ?thesis
  proof (cases "paused t")
    case True
    from ex have "s1 = s" by (simp add: exec_paused[OF at True])
    then show ?thesis by (simp add: ll)
  next
    case False
    show ?thesis
      using ex np ll unfolding exec_unpaused[OF at False]
      by (auto simp: fire_step_def Let_def timer_write_def run_timer_cb_def os_timer_del_def
          ll_update_split os_ll_remove_split timer_at_def map_of_split split: if_splits)
  qed
qed

lemma exec_total:
  assumes "timer_at s p = Some t"
  shows "\<exists>e s1. os_timer_exec s p = Some (e, s1)"
proof (cases "paused t")
  case True
  then show ?thesis using exec_paused[OF assms] by blast
next
  case False
  show ?thesis unfolding exec_unpaused[OF assms False] by (simp add: case_prod_beta Let_def)
qed

lemma timer_pass_rule:
  assumes step: "\<And>s p e s1. I s \<Longrightarrow> distinct (keys s) \<Longrightarrow> p \<in> set (keys s) \<Longrightarrow>
                    os_timer_exec s p = Some (e, s1) \<Longrightarrow> I s1"
    and act: "\<And>s a. I s \<Longrightarrow> I (s\<lparr>os_timer_act := a\<rparr>)"
  shows "os_timer_ll s = pre @ rest \<Longrightarrow> distinct (keys s) \<Longrightarrow> os_timer_act s = os_ll_get_head rest \<Longrightarrow>
         I s \<Longrightarrow> \<not> timer_created s \<Longrightarrow> (timer_deleted s \<longrightarrow> length (keys s) < n0) \<Longrightarrow>
         length (keys s) \<le> n0 \<Longrightarrow>
         \<exists>s'. timer_pass s = Some s' \<and> I s' \<and> distinct (keys s') \<and> \<not> timer_created s'
              \<and> (timer_deleted s' \<longrightarrow> length (keys s') < n0) \<and> length (keys s') \<le> n0
              \<and> (os_timer_act s' \<noteq> None \<longrightarrow> timer_deleted s')
              \<and> sys_time s' = sys_time s"
proof (induction rest arbitrary: s pre)
  case Nil
  then show ?case by (subst timer_pass.simps) (simp add: os_ll_get_head_def)
next
  case (Cons x rest)
  obtain p t where x: "x = (p, t)" by (cases x)
  have ll: "os_timer_ll s = pre @ (p, t) # rest" using Cons.prems(1) x by simp
  have d: "distinct (keys s)" by fact
  have np: "p \<notin> fst ` set pre" using ll d by (auto simp: keys_def)
  have actp: "os_timer_act s = Some p" using Cons.prems(3) x by (simp add: os_ll_get_head_def)
  have nx: "os_ll_get_next (os_timer_ll s) p = Some (os_ll_get_head rest)"
    unfolding ll by (rule os_ll_get_next_split[OF np])
  have at: "timer_at s p = Some t" by (rule timer_at_split[OF ll d])
  from exec_total[OF at] obtain e s1 where ex: "os_timer_exec s p = Some (e, s1)" by blast
  note sh = exec_shape[OF ll d ex]
  have pk: "p \<in> set (keys s)" using ll by (simp add: keys_def)
  have I1: "I s1" by (rule step[OF Cons.prems(4) d pk ex])
  have d1: "distinct (keys s1)" using sh d ll by (auto simp: keys_def)
  have c1: "\<not> timer_created s1" using sh Cons.prems(5) by simp
  have len1: "length (keys s1) \<le> n0" "timer_deleted s1 \<longrightarrow> length (keys s1) < n0"
    using sh Cons.prems(6,7) ll by (auto simp: keys_def)
  have st1: "sys_time s1 = sys_time s" using sh by simp
  show ?case
  proof (cases "e \<and> (timer_created s1 \<or> timer_deleted s1)")
    case True
    have "timer_pass s = Some s1"
      using True by (subst timer_pass.simps) (simp add: actp nx ex)
    moreover have "os_timer_act s1 = Some p" using sh actp by simp
    ultimately show ?thesis using I1 d1 c1 len1 True st1 by auto
  next
    case False
    let ?s2 = "s1\<lparr>os_timer_act := os_ll_get_head rest\<rparr>"
    have tp: "timer_pass s = timer_pass ?s2"
      using False by (subst timer_pass.simps) (auto simp add: actp nx ex)
    from sh obtain pre' where ll2: "os_timer_ll ?s2 = pre' @ rest"
      by (metis append.assoc append_Cons append_Nil select_convs(1) surjective update_convs(2))
    have "\<exists>s'. timer_pass ?s2 = Some s' \<and> I s' \<and> distinct (keys s') \<and> \<not> timer_created s'
              \<and> (timer_deleted s' \<longrightarrow> length (keys s') < n0) \<and> length (keys s') \<le> n0
              \<and> (os_timer_act s' \<noteq> None \<longrightarrow> timer_deleted s')
              \<and> sys_time s' = sys_time ?s2"
      using d1 c1 len1 act[OF I1]
      by (intro Cons.IH[OF ll2]) (simp_all add: keys_def)
    then show ?thesis using tp st1 by simp
  qed
qed

lemma timer_run_all_rule:
  assumes step: "exec_inv I" and ind: "indep I"
  shows "distinct (keys s) \<Longrightarrow> I s \<Longrightarrow>
         \<exists>s'. timer_run_all s = Some s' \<and> I s' \<and> distinct (keys s') \<and> sys_time s' = sys_time s"
proof (induction "length (keys s)" arbitrary: s rule: less_induct)
  case less
  let ?s0 = "s\<lparr>timer_deleted := False, timer_created := False,
                os_timer_act := os_ll_get_head (os_timer_ll s)\<rparr>"
  have I0: "I ?s0" using ind less.prems(2) unfolding indep_def by simp
  have k0: "keys ?s0 = keys s" by (simp add: keys_def)
  have "\<exists>s'. timer_pass ?s0 = Some s' \<and> I s' \<and> distinct (keys s') \<and> \<not> timer_created s'
              \<and> (timer_deleted s' \<longrightarrow> length (keys s') < length (keys s))
              \<and> length (keys s') \<le> length (keys s)
              \<and> (os_timer_act s' \<noteq> None \<longrightarrow> timer_deleted s')
              \<and> sys_time s' = sys_time ?s0"
  proof (rule timer_pass_rule[where I = I and pre = "[]" and rest = "os_timer_ll s"])
    show "\<And>s p e s1. I s \<Longrightarrow> distinct (keys s) \<Longrightarrow> p \<in> set (keys s) \<Longrightarrow>
            os_timer_exec s p = Some (e, s1) \<Longrightarrow> I s1"
      using step unfolding exec_inv_def by blast
    show "\<And>s a. I s \<Longrightarrow> I (s\<lparr>os_timer_act := a\<rparr>)"
      using ind unfolding indep_def by simp
  qed (use less.prems I0 k0 in simp_all)
  then obtain s1 where p: "timer_pass ?s0 = Some s1" "I s1" "distinct (keys s1)"
      "timer_deleted s1 \<longrightarrow> length (keys s1) < length (keys s)"
      "os_timer_act s1 \<noteq> None \<longrightarrow> timer_deleted s1" "sys_time s1 = sys_time s"
    by auto
  show ?case
  proof (cases "os_timer_act s1 \<noteq> None")
    case True
    then have "length (keys s1) < length (keys s)" using p(4,5) by blast
    from less.hyps[OF this p(3) p(2)] obtain s' where
      "timer_run_all s1 = Some s'" "I s'" "distinct (keys s')" "sys_time s' = sys_time s1"
      by blast
    moreover have "timer_run_all s = timer_run_all s1"
      using True by (subst timer_run_all.simps) (simp add: p(1))
    ultimately show ?thesis using p(6) by simp
  next
    case False
    then have "timer_run_all s = Some s1"
      by (subst timer_run_all.simps) (simp add: p(1))
    then show ?thesis using p by simp
  qed
qed

lemma os_timer_handler_rule:
  assumes step: "exec_inv I" and ind: "indep I"
    and d: "distinct (keys s)" and I: "I s"
  shows "\<exists>r s'. os_timer_handler s = Some (r, s') \<and> I s' \<and> distinct (keys s')
           \<and> sys_time s' = sys_time s"
proof -
  have upd: "I s' \<and> distinct (keys s') \<and> sys_time s' = sys_time s0"
    if "I s0" "distinct (keys s0)" "os_timer_ll s' = os_timer_ll s0" "sys_time s' = sys_time s0"
       "cb_trace s' = cb_trace s0" for s0 s'
    using that ind unfolding indep_def keys_def by metis
  show ?thesis
  proof (cases "already_running s \<or> \<not> os_timer_run s")
    case True
    then show ?thesis using d I
      by (auto simp: os_timer_handler_def Let_def intro!: upd[of s, THEN conjunct1] simp: keys_def)
  next
    case False
    define s0 where "s0 = (let s = s\<lparr>already_running := True\<rparr>; handler_start = os_tick_get s in
        (if handler_start = 0 then
                       (let c = run_cnt s + 1 in s\<lparr>run_cnt := (if c > 100 then 0 else c)\<rparr>)
                     else s))"
    have s0: "os_timer_ll s0 = os_timer_ll s" "sys_time s0 = sys_time s" "cb_trace s0 = cb_trace s"
      by (simp_all add: s0_def Let_def)
    have "I s0 \<and> distinct (keys s0) \<and> sys_time s0 = sys_time s"
      by (rule upd[OF I d s0])
    with timer_run_all_rule[OF step ind, of s0] obtain s1 where
      r: "timer_run_all s0 = Some s1" "I s1" "distinct (keys s1)" "sys_time s1 = sys_time s"
      by auto
    obtain r' s' where h: "os_timer_handler s = Some (r', s')"
       and f: "os_timer_ll s' = os_timer_ll s1" "sys_time s' = sys_time s1" "cb_trace s' = cb_trace s1"
      using False r(1) unfolding s0_def
      by (auto simp: os_timer_handler_def Let_def os_tick_get_def)
    from upd[OF r(2,3) f] h r(4) show ?thesis by auto
  qed
qed

lemma exec_other:
  assumes ex: "os_timer_exec s q = Some (e, s1)" and ne: "q \<noteq> p"
  shows "timer_at s1 p = timer_at s p \<and> cb_calls s1 p = cb_calls s p"
proof -
  from ex obtain tq where at: "timer_at s q = Some tq"
    by (auto simp: os_timer_exec_def split: bind_splits)
  show ?thesis
  proof (cases "paused tq")
    case True
    with ex at show ?thesis by (simp add: exec_paused)
  next
    case False
    show ?thesis
      using ex ne unfolding exec_unpaused[OF at False]
      by (auto simp: fire_step_def Let_def timer_write_def run_timer_cb_def os_timer_del_def
          timer_at_def map_of_ll_update map_of_os_ll_remove cb_calls_def split: if_splits)
  qed
qed

lemma exec_deletes:
  assumes ex: "os_timer_exec s q = Some (e, s')" and at: "timer_at s q = Some tq"
    and gone: "timer_at s' q = None"
  shows "\<not> paused tq \<and> \<not> timer_deleted s \<and>
         (repeat_count tq = 0 \<or> repeat_count tq = 1 \<and> os_timer_time_remaining s tq = 0)"
proof (cases "paused tq")
  case True
  with ex at gone show ?thesis by (simp add: exec_paused)
next
  case False
  have in_keys: "q \<in> fst ` set (os_timer_ll s)"
    using at by (auto simp: timer_at_def dest: map_of_SomeD intro: rev_image_eqI)
  show ?thesis
    using ex gone False in_keys at unfolding exec_unpaused[OF at False]
    by (auto simp: fire_step_def Let_def timer_write_def run_timer_cb_def os_timer_del_def
        timer_at_def map_of_ll_update map_of_os_ll_remove split: if_splits)
qed

lemma paused_inv_indep: "indep (paused_inv p t calls)"
  unfolding indep_def paused_inv_def timer_at_def cb_calls_def by simp

lemma paused_inv_exec: "paused t \<Longrightarrow> exec_inv (paused_inv p t calls)"
  unfolding exec_inv_def paused_inv_def
proof (intro allI impI)
  fix s q e s1
  assume pt: "paused t" and I: "timer_at s p = Some t \<and> cb_calls s p = calls"
    and ex: "os_timer_exec s q = Some (e, s1)"
  show "timer_at s1 p = Some t \<and> cb_calls s1 p = calls"
  proof (cases "q = p")
    case True
    with ex I pt have "s1 = s" by (simp add: exec_paused)
    with I show ?thesis by simp
  next
    case False
    from exec_other[OF ex False] I show ?thesis by simp
  qed
qed

lemma handler_repeat_rule:
  assumes step: "exec_inv I" and ind: "indep I"
  shows "distinct (keys s) \<Longrightarrow> I s \<Longrightarrow>
         \<exists>s'. handler_repeat n s = Some s' \<and> I s' \<and> distinct (keys s')"
proof (induction n arbitrary: s)
  case 0
  then show ?case by simp
next
  case (Suc n)
  from os_timer_handler_rule[OF step ind Suc.prems] obtain r s1 where
    h: "os_timer_handler s = Some (r, s1)" "I s1" "distinct (keys s1)" by blast
  from Suc.IH[OF h(3) h(2)] h(1) show ?case by simp
qed


lemma spaced_snoc:
  "spaced P ts \<Longrightarrow> (ts \<noteq> [] \<longrightarrow> P \<le> x - last ts) \<Longrightarrow> spaced P (ts @ [x])"
  unfolding spaced_def
proof (intro allI impI)
  fix i assume a: "\<forall>i. Suc i < length ts \<longrightarrow> P \<le> ts ! Suc i - ts ! i"
    "ts \<noteq> [] \<longrightarrow> P \<le> x - last ts" "Suc i < length (ts @ [x])"
  show "P \<le> (ts @ [x]) ! Suc i - (ts @ [x]) ! i"
  proof (cases "Suc i < length ts")
    case True
    then show ?thesis using a(1) by (simp add: nth_append)
  next
    case False
    then have i: "Suc i = length ts" using a(3) by simp
    then have "ts \<noteq> []" by auto
    then have "last ts = ts ! i" using i by (metis diff_Suc_1 last_conv_nth)
    then show ?thesis using a(2) i \<open>ts \<noteq> []\<close> by (simp add: nth_append)
  qed
qed

lemma remaining_zero: "os_timer_time_remaining s t = 0 \<Longrightarrow> period t \<le> sys_time s - last_run t"
  by (auto simp: os_timer_time_remaining_def os_tick_elaps_eq Let_def split: if_splits)

lemma count_inv_indep: "indep (count_inv p P k cb0 n0)"
  unfolding indep_def count_inv_def timer_at_def cb_calls_def new_calls_def by simp

lemma count_inv_tick: "count_inv p P k cb0 n0 s \<Longrightarrow> count_inv p P k cb0 n0 (os_tick_inc n s)"
  unfolding count_inv_def timer_at_def cb_calls_def os_tick_inc_def new_calls_def by simp

lemma new_calls_same: "cb_calls s1 p = cb_calls s p \<Longrightarrow> new_calls n0 s1 p = new_calls n0 s p"
  by (simp add: new_calls_def)

lemma new_calls_snoc:
  "n0 \<le> length (cb_calls s p) \<Longrightarrow> cb_calls s1 p = cb_calls s p @ [x] \<Longrightarrow>
     new_calls n0 s1 p = new_calls n0 s p @ [x]"
  by (simp add: new_calls_def)

lemma timer_at_write:
  "timer_at s p = Some t \<Longrightarrow> timer_at (timer_write s p t') q = (if q = p then Some t' else timer_at s q)"
proof -
  assume at: "timer_at s p = Some t"
  then have "p \<in> fst ` set (os_timer_ll s)"
    by (auto simp: timer_at_def dest: map_of_SomeD intro: rev_image_eqI)
  then show ?thesis by (simp add: timer_at_def timer_write_def map_of_ll_update)
qed

lemma obs_write:
  "cb_calls (timer_write s p t') q = cb_calls s q"
  "timer_deleted (timer_write s p t') = timer_deleted s"
  "sys_time (timer_write s p t') = sys_time s"
  by (simp_all add: timer_write_def cb_calls_def)

lemma obs_cb:
  "timer_at (run_timer_cb s p) q = timer_at s q"
  "cb_calls (run_timer_cb s p) q = cb_calls s q @ (if q = p then [sys_time s] else [])"
  "timer_deleted (run_timer_cb s p) = timer_deleted s"
  "sys_time (run_timer_cb s p) = sys_time s"
  by (simp_all add: run_timer_cb_def cb_calls_def timer_at_def os_tick_get_def)

lemma obs_del:
  "timer_at (os_timer_del s p) q = (if q = p then None else timer_at s q)"
  "cb_calls (os_timer_del s p) q = cb_calls s q"
  "timer_deleted (os_timer_del s p) = True"
  "sys_time (os_timer_del s p) = sys_time s"
  by (simp_all add: os_timer_del_def cb_calls_def timer_at_def map_of_os_ll_remove)

lemma exec_unpaused_result:
  assumes at: "timer_at s p = Some t" and np: "\<not> paused t"
    and ex: "os_timer_exec s p = Some (e, s1)"
  shows "e = (os_timer_time_remaining s t = 0)"
    and "timer_at s1 p = (if \<not> timer_deleted s \<and> repeat_count (fired_timer s t) = 0 then None
                          else Some (fired_timer s t))"
    and "cb_calls s1 p = cb_calls s p @
           (if os_timer_time_remaining s t = 0 \<and> timer_cb t \<noteq> None \<and> repeat_count t \<noteq> 0
            then [sys_time s] else [])"
proof -
  have w: "timer_at (timer_write s p t') p = Some t'" for t'
    using timer_at_write[OF at, of t' p] by simp
  have r: "os_timer_exec s p =
          (let (e, s1) = fire_step s p t in
           Some (e, if \<not> timer_deleted s \<and> repeat_count (the (timer_at s1 p)) = 0
                    then os_timer_del s1 p else s1))"
    by (rule exec_unpaused[OF at np])
  show "e = (os_timer_time_remaining s t = 0)"
    using ex unfolding r by (auto simp: fire_step_def Let_def split: if_splits)
  show "timer_at s1 p = (if \<not> timer_deleted s \<and> repeat_count (fired_timer s t) = 0 then None
                          else Some (fired_timer s t))"
    using ex at unfolding r
    by (auto simp: fire_step_def fired_timer_def Let_def w obs_cb obs_del os_tick_get_def
        split: if_splits)
  show "cb_calls s1 p = cb_calls s p @
           (if os_timer_time_remaining s t = 0 \<and> timer_cb t \<noteq> None \<and> repeat_count t \<noteq> 0
            then [sys_time s] else [])"
    using ex at unfolding r
    by (auto simp: fire_step_def Let_def w obs_cb obs_del obs_write split: if_splits)
qed

lemma count_inv_exec: "exec_inv (count_inv p P k cb0 n0)"
  unfolding exec_inv_def
proof (intro allI impI)
  fix s q e s1
  assume I: "count_inv p P k cb0 n0 s" and ex: "os_timer_exec s q = Some (e, s1)"
  show "count_inv p P k cb0 n0 s1"
  proof (cases "q = p")
    case False
    from exec_other[OF ex False] I show ?thesis by (simp add: count_inv_def new_calls_def)
  next
    case True
    from ex obtain t where at: "timer_at s p = Some t"
      unfolding True by (auto simp: os_timer_exec_def split: bind_splits)
    show ?thesis
    proof (cases "paused t")
      case True
      with ex at \<open>q = p\<close> I show ?thesis by (simp add: exec_paused)
    next
      case False
      define calls where "calls = new_calls n0 s p"
      from I at have inv: "n0 \<le> length (cb_calls s p)" "spaced P calls" "int (length calls) \<le> k"
        "cb0 = None \<longrightarrow> calls = []" "period t = P" "timer_cb t = cb0" "0 \<le> repeat_count t"
        "int (length calls) + repeat_count t \<le> k"
        "calls \<noteq> [] \<and> 0 < repeat_count t \<longrightarrow> last_run t = last calls"
        by (simp_all add: count_inv_def calls_def Let_def)
      note R = exec_unpaused_result[OF at False ex[unfolded True]]
      define t' where "t' = fired_timer s t"
      have at1: "timer_at s1 p = None \<or> timer_at s1 p = Some t'"
        using R(2) by (auto simp: t'_def)
      show ?thesis
      proof (cases "os_timer_time_remaining s t = 0 \<and> timer_cb t \<noteq> None \<and> repeat_count t \<noteq> 0")
        case nf: False
        have cs: "new_calls n0 s1 p = calls"
          unfolding calls_def using R(3) nf by (intro new_calls_same) auto
        have len: "n0 \<le> length (cb_calls s1 p)" using R(3) inv(1) by simp
        have t'_ok: "period t' = P \<and> timer_cb t' = cb0 \<and> 0 \<le> repeat_count t'
              \<and> int (length calls) + repeat_count t' \<le> k
              \<and> (calls \<noteq> [] \<and> 0 < repeat_count t' \<longrightarrow> last_run t' = last calls)"
          using inv nf by (auto simp: t'_def fired_timer_def)
        show ?thesis
          using at1 cs len t'_ok inv(2,3,4) unfolding count_inv_def Let_def by auto
      next
        case f: True
        then have rpos: "0 < repeat_count t" using inv(7) by simp
        have cs: "new_calls n0 s1 p = calls @ [sys_time s]"
          unfolding calls_def using R(3) f inv(1) by (intro new_calls_snoc) auto
        have len: "n0 \<le> length (cb_calls s1 p)" using R(3) inv(1) by simp
        have el: "period t \<le> sys_time s - last_run t" using f by (intro remaining_zero) simp
        have sp: "spaced P (calls @ [sys_time s])"
          using inv(2) el inv(5,9) rpos by (intro spaced_snoc) auto
        have t'_ok: "period t' = P \<and> timer_cb t' = cb0 \<and> 0 \<le> repeat_count t'
              \<and> int (length (calls @ [sys_time s])) + repeat_count t' \<le> k
              \<and> last_run t' = last (calls @ [sys_time s])"
          using inv f rpos by (auto simp: t'_def fired_timer_def)
        have lk: "int (length (calls @ [sys_time s])) \<le> k" using inv(8) rpos by simp
        have c0: "cb0 \<noteq> None" using f inv(6) by auto
        show ?thesis
          using at1 len t'_ok sp lk c0 unfolding count_inv_def Let_def cs by auto
      qed
    qed
  qed
qed

lemma run_ops_rule:
  assumes step: "exec_inv I" and ind: "indep I"
    and tick: "\<And>s n. I s \<Longrightarrow> I (os_tick_inc n s)"
  shows "distinct (keys s) \<Longrightarrow> I s \<Longrightarrow> \<exists>s'. run_ops ops s = Some s' \<and> I s' \<and> distinct (keys s')"
proof (induction ops arbitrary: s)
  case Nil
  then show ?case by simp
next
  case (Cons a ops)
  show ?case
  proof (cases a)
    case (TickInc n)
    have "distinct (keys (os_tick_inc n s))" using Cons.prems(1) by (simp add: keys_def os_tick_inc_def)
    from Cons.IH[OF this tick[OF Cons.prems(2)]] TickInc show ?thesis by simp
  next
    case Handler
    from os_timer_handler_rule[OF step ind Cons.prems] obtain r s1 where
      h: "os_timer_handler s = Some (r, s1)" "I s1" "distinct (keys s1)" by blast
    from Cons.IH[OF h(3) h(2)] h(1) Handler show ?thesis by simp
  qed
qed


lemmas timer_eval =
  demo_sched_def demo_timer_def os_tick_inc_def os_timer_handler_def Let_def
  os_tick_get_def timer_run_all.simps timer_pass.simps os_ll_get_head_def os_timer_exec_def
  timer_at_def os_timer_time_remaining_def os_tick_elaps_def timer_write_def run_timer_cb_def
  os_timer_del_def os_ll_remove_def OS_NO_TIMER_READY_def IDLE_MEAS_PERIOD_def

section \<open>C6: a timer with repeat count \<open>k\<close> fires at most \<open>k\<close> times, a period apart\<close>

text \<open>
  Claim C6.  Take a timer with period \<open>P\<close> whose \<open>repeat_count\<close> is \<open>k > 0\<close> and that
  the application does not modify afterwards.  Every sequence of \<open>os_tick_inc\<close> and
  \<open>os_timer_handler\<close> calls runs to its end, invokes the timer's callback at most
  \<open>k\<close> times, and at each invocation after the first the time elapsed since the
  \<open>last_run\<close> recorded at the previous invocation, as \<open>os_tick_elaps\<close> computes it, is
  at least \<open>P\<close>.  \<open>new_calls\<close> lists the ticks of the invocations made since the start
  state; each is the \<open>last_run\<close> written just before the callback ran.
\<close>

theorem timer_fires_at_most_k_spaced:
  assumes "distinct (keys s0)" and "timer_at s0 p = Some t"
    and "period t = P" and "repeat_count t = k" and "0 < k"
  shows "\<exists>s'. run_ops ops s0 = Some s' \<and>
           (let calls = new_calls (length (cb_calls s0 p)) s' p in
              int (length calls) \<le> k \<and>
              (\<forall>i. Suc i < length calls \<longrightarrow>
                   P \<le> os_tick_elaps (s'\<lparr>sys_time := calls ! Suc i\<rparr>) (calls ! i)))"
proof -
  let ?n0 = "length (cb_calls s0 p)"
  have I0: "count_inv p P k (timer_cb t) ?n0 s0"
    using assms by (simp add: count_inv_def new_calls_def spaced_def)
  from run_ops_rule[OF count_inv_exec count_inv_indep count_inv_tick assms(1) I0, of ops]
  obtain s' where r: "run_ops ops s0 = Some s'" "count_inv p P k (timer_cb t) ?n0 s'" by blast
  from r(2) have "int (length (new_calls ?n0 s' p)) \<le> k" "spaced P (new_calls ?n0 s' p)"
    by (simp_all add: count_inv_def Let_def)
  then show ?thesis using r(1) by (simp add: Let_def spaced_def os_tick_elaps_eq)
qed

theorem timer_fires_at_most_k_spaced_witness:
  "distinct (keys (demo_sched demo_timer)) \<and> timer_at (demo_sched demo_timer) 1 = Some demo_timer
   \<and> period demo_timer = 10 \<and> repeat_count demo_timer = 3 \<and> (0::int) < 3
   \<and> (\<exists>s'. run_ops [TickInc 10, Handler, TickInc 5, Handler, TickInc 5, Handler]
               (demo_sched demo_timer) = Some s'
          \<and> cb_trace s' = [(1, 10), (1, 20)]
          \<and> new_calls (length (cb_calls (demo_sched demo_timer) 1)) s' 1 = [10, 20]
          \<and> os_tick_elaps (s'\<lparr>sys_time := 20\<rparr>) 10 = 10)"
proof -
  have h: "distinct (keys (demo_sched demo_timer))"
    "timer_at (demo_sched demo_timer) 1 = Some demo_timer"
    "period demo_timer = 10" "repeat_count demo_timer = 3" "(0::int) < 3"
    by (simp_all add: keys_def demo_sched_def demo_timer_def timer_at_def)
  from timer_fires_at_most_k_spaced[OF h, of "[TickInc 10, Handler, TickInc 5, Handler, TickInc 5, Handler]"]
  obtain s' where r: "run_ops [TickInc 10, Handler, TickInc 5, Handler, TickInc 5, Handler]
               (demo_sched demo_timer) = Some s'"
      "(let calls = new_calls (length (cb_calls (demo_sched demo_timer) 1)) s' 1 in
                int (length calls) \<le> 3 \<and>
                (\<forall>i. Suc i < length calls \<longrightarrow>
                     10 \<le> os_tick_elaps (s'\<lparr>sys_time := calls ! Suc i\<rparr>) (calls ! i)))"
    by blast
  have "run_ops [TickInc 10, Handler, TickInc 5, Handler, TickInc 5, Handler]
               (demo_sched demo_timer) =
        Some \<lparr>os_timer_ll = [(1, \<lparr>period = 10, last_run = 20, timer_cb = Some 0, user_data = 0,
                                  repeat_count = 1, paused = False\<rparr>)],
         os_timer_act = None, sys_time = 20, os_timer_run = True,
         idle_last = 0, timer_deleted = False, timer_created = False,
         already_running = False, idle_period_start = 0, busy_time = 0,
         run_cnt = 0, cb_trace = [(1, 10), (1, 20)]\<rparr>"
    by (simp add: timer_eval)
  with r(1) have tr: "cb_trace s' = [(1, 10), (1, 20)]" by auto
  then have nc: "new_calls (length (cb_calls (demo_sched demo_timer) 1)) s' 1 = [10, 20]"
    by (simp add: new_calls_def cb_calls_def demo_sched_def)
  have el: "os_tick_elaps (s'\<lparr>sys_time := 20\<rparr>) 10 = 10"
    by (simp add: os_tick_elaps_eq)
  from h r(1) tr nc el show ?thesis by blast
qed

section \<open>C7: the size-class mapping\<close>

text \<open>
  Claim C7.  For every size \<open>s\<close> with \<open>block_size_min \<le> s < block_size_max\<close>,
  \<open>mapping_insert\<close> yields \<open>fl = 0\<close> and \<open>sl = s / (SMALL_BLOCK_SIZE / SL_INDEX_COUNT)\<close>
  when \<open>s < SMALL_BLOCK_SIZE\<close>, and otherwise
  \<open>fl = floor(log2 s) - (FL_INDEX_SHIFT - 1)\<close> and
  \<open>sl = (s >> (fl + FL_INDEX_SHIFT - 1 - SL_INDEX_COUNT_LOG2)) XOR SL_INDEX_COUNT\<close>,
  with \<open>ALIGN_SIZE_LOG2 = 2\<close>, \<open>SL_INDEX_COUNT_LOG2 = 5\<close>, \<open>FL_INDEX_SHIFT = 7\<close>.
\<close>

theorem mapping_insert_spec:
  assumes "block_size_min \<le> s" and "s < block_size_max"
  shows "mapping_insert s =
           (if s < SMALL_BLOCK_SIZE then
              (0, uint s div (uint SMALL_BLOCK_SIZE div int SL_INDEX_COUNT))
            else
              (let fl = \<lfloor>log 2 (real (unat s))\<rfloor> - (int FL_INDEX_SHIFT - 1)
               in (fl, uint (drop_bit (nat (fl + int FL_INDEX_SHIFT - 1 - int SL_INDEX_COUNT_LOG2)) s)
                         XOR int SL_INDEX_COUNT)))
         \<and> ALIGN_SIZE_LOG2 = 2 \<and> SL_INDEX_COUNT_LOG2 = 5 \<and> FL_INDEX_SHIFT = 7"
proof -
  have nz: "s \<noteq> 0" using assms(1) by (auto simp: tlsf_sizes)
  have fl: "tlsf_fls s = \<lfloor>log 2 (real (unat s))\<rfloor>" by (rule tlsf_fls_floor_log[OF nz])
  have sh: "tlsf_fls s - (int FL_INDEX_SHIFT - 1) + int FL_INDEX_SHIFT - 1 - int SL_INDEX_COUNT_LOG2
              = tlsf_fls s - int SL_INDEX_COUNT_LOG2" by simp
  have "mapping_insert s =
           (if s < SMALL_BLOCK_SIZE then
              (0, uint s div (uint SMALL_BLOCK_SIZE div int SL_INDEX_COUNT))
            else
              (let fl = tlsf_fls s - (int FL_INDEX_SHIFT - 1)
               in (fl, uint (drop_bit (nat (fl + int FL_INDEX_SHIFT - 1 - int SL_INDEX_COUNT_LOG2)) s)
                         XOR int SL_INDEX_COUNT)))"
    unfolding mapping_insert_def Let_def sh by (simp add: SL_INDEX_COUNT_def)
  then show ?thesis unfolding fl by (simp add: tlsf_consts)
qed

theorem mapping_insert_spec_witness:
  "block_size_min \<le> 256 \<and> (256::u32) < block_size_max \<and> mapping_insert 256 = (2, 0)"
proof -
  have h1: "block_size_min \<le> 256" and h2: "(256::u32) < block_size_max"
    by (simp_all add: tlsf_sizes tlsf_consts)
  have "real (unat (256::u32)) = 2 ^ 8" by simp
  then have lg: "\<lfloor>log 2 (real (unat (256::u32)))\<rfloor> = 8"
    by (simp only: log_pow_cancel) simp
  have "\<not> (256::u32) < SMALL_BLOCK_SIZE" by (simp add: tlsf_consts)
  with mapping_insert_spec[OF h1 h2] lg have "mapping_insert 256 = (2, 0)"
    by (simp add: tlsf_consts Let_def)
  with h1 h2 show ?thesis by simp
qed

section \<open>C9: \<open>os_memcpy\<close> against the naive byte copy\<close>

text \<open>
  Claim C9.  For non-overlapping destination and source ranges of length \<open>n\<close>, whatever the
  alignments of the two pointers, \<open>os_memcpy d s n\<close> returns \<open>d\<close>, leaves the memory exactly
  as the naive byte-by-byte copy \<open>byte_copy\<close> does, the first \<open>n\<close> bytes of \<open>d\<close> hold the
  original first \<open>n\<close> bytes of \<open>s\<close>, and no byte outside \<open>d[0..n)\<close> is changed.  The
  statement covers the mismatched-alignment byte loop, the destination pre-alignment and
  the unrolled word copy with its byte remainder, since it holds for all \<open>d\<close>, \<open>s\<close>, \<open>n\<close>.
\<close>

theorem os_memcpy_refines_byte_copy:
  assumes "\<forall>i<unat n. \<forall>j<unat n. d + of_nat i \<noteq> s + of_nat j"
  shows "fst (os_memcpy m d s n) = d
       \<and> snd (os_memcpy m d s n) = byte_copy m d s (unat n)
       \<and> (\<forall>i<unat n. snd (os_memcpy m d s n) (d + of_nat i) = m (s + of_nat i))
       \<and> (\<forall>a. (\<forall>i<unat n. a \<noteq> d + of_nat i) \<longrightarrow> snd (os_memcpy m d s n) a = m a)"
proof -
  have no: "no_overlap d s (unat n)" using assms by (simp add: no_overlap_def)
  have le: "unat n \<le> 2 ^ 32" using unsigned_less[of n, where 'a=nat] by simp
  note e = os_memcpy_mem[OF no]
  show ?thesis
    unfolding e using os_memcpy_ret byte_copy_inside[OF no le] byte_copy_outside
    by simp
qed

theorem os_memcpy_refines_byte_copy_witness:
  "fst (os_memcpy (\<lambda>a. ucast a) 0x1001 0x2001 40) = 0x1001
   \<and> snd (os_memcpy (\<lambda>a. ucast a) 0x1001 0x2001 40) 0x1005 = 0x05
   \<and> snd (os_memcpy (\<lambda>a. ucast a) 0x1001 0x2001 40) 0x1029 = 0x29"
proof -
  have h: "\<forall>i<unat (40::u32). \<forall>j<unat (40::u32). (0x1001::addr) + of_nat i \<noteq> 0x2001 + of_nat j"
  proof (intro allI impI)
    fix i j assume "i < unat (40::u32)" "j < unat (40::u32)"
    then have ij: "i < 40" "j < 40" by simp_all
    have e1: "(0x1001::addr) + of_nat i = of_nat (4097 + i)" by simp
    have e2: "(0x2001::addr) + of_nat j = of_nat (8193 + j)" by simp
    have "(of_nat (4097 + i) :: addr) \<noteq> of_nat (8193 + j)"
      using ij by (intro word_of_nat_neq) auto
    then show "(0x1001::addr) + of_nat i \<noteq> 0x2001 + of_nat j" unfolding e1 e2 .
  qed
  note t = os_memcpy_refines_byte_copy[OF h, of "\<lambda>a. ucast a"]
  from t have t1: "fst (os_memcpy (\<lambda>a. ucast a) 0x1001 0x2001 40) = 0x1001" by blast
  from t have t3: "\<And>i. i < unat (40::u32) \<Longrightarrow>
      snd (os_memcpy (\<lambda>a. ucast a) 0x1001 0x2001 40) (0x1001 + of_nat i) = ucast (0x2001 + of_nat i :: addr)"
    by blast
  from t have t4: "\<And>a. \<forall>i<unat (40::u32). a \<noteq> 0x1001 + of_nat i \<Longrightarrow>
      snd (os_memcpy (\<lambda>a. ucast a) 0x1001 0x2001 40) a = ucast a"
    by blast
  have a: "snd (os_memcpy (\<lambda>a. ucast a) 0x1001 0x2001 40) 0x1005 = 0x05"
    using t3[of 4] by simp
  have "\<forall>i<unat (40::u32). (0x1029::addr) \<noteq> 0x1001 + of_nat i"
  proof (intro allI impI)
    fix i assume "i < unat (40::u32)"
    then have i: "i < 40" by simp
    have e1: "(0x1001::addr) + of_nat i = of_nat (4097 + i)" by simp
    have e2: "(0x1029::addr) = of_nat 4137" by simp
    have "(of_nat 4137 :: addr) \<noteq> of_nat (4097 + i)"
      using i by (intro word_of_nat_neq) auto
    then show "(0x1029::addr) \<noteq> 0x1001 + of_nat i" unfolding e1 e2 .
  qed
  then have b: "snd (os_memcpy (\<lambda>a. ucast a) 0x1001 0x2001 40) 0x1029 = 0x29"
    using t4[of "0x1029"] by simp
  show ?thesis using t1 a b by blast
qed

section \<open>C10: a paused timer is neither run nor deleted\<close>

text \<open>
  Claim C10.  For a paused timer \<open>os_timer_exec\<close> returns false at once, before the
  repeat-count check: the state is unchanged, so the callback is not invoked, no field of
  the timer changes and the timer stays in the list, whatever its \<open>repeat_count\<close>.  Hence
  under any number of successive \<open>os_timer_handler\<close> calls a paused timer (also one
  whose \<open>repeat_count\<close> is 0) stays in the list, unchanged and never invoked.  And a
  timer that \<open>os_timer_exec\<close> removes was not paused and had \<open>repeat_count\<close> 0 when it
  was removed: it was 0 before the call, or it was 1 and the timer fired in this call.
\<close>

theorem paused_timer_skipped:
  assumes "timer_at s p = Some t" and "paused t"
  shows "os_timer_exec s p = Some (False, s)
       \<and> (distinct (keys s) \<longrightarrow>
            (\<forall>n. \<exists>s'. handler_repeat n s = Some s' \<and> timer_at s' p = Some t
                        \<and> cb_calls s' p = cb_calls s p))
       \<and> (\<forall>q tq e s'. timer_at s q = Some tq \<and> os_timer_exec s q = Some (e, s')
                        \<and> timer_at s' q = None \<longrightarrow>
             \<not> paused tq \<and>
             (repeat_count tq = 0 \<or> repeat_count tq = 1 \<and> os_timer_time_remaining s tq = 0))"
proof (intro conjI impI allI)
  show "os_timer_exec s p = Some (False, s)" by (rule exec_paused[OF assms])
next
  fix n assume d: "distinct (keys s)"
  have "paused_inv p t (cb_calls s p) s" using assms(1) by (simp add: paused_inv_def)
  from handler_repeat_rule[OF paused_inv_exec[OF assms(2)] paused_inv_indep d this, of n]
  show "\<exists>s'. handler_repeat n s = Some s' \<and> timer_at s' p = Some t \<and> cb_calls s' p = cb_calls s p"
    by (auto simp: paused_inv_def)
next
  fix q tq e s'
  assume "timer_at s q = Some tq \<and> os_timer_exec s q = Some (e, s') \<and> timer_at s' q = None"
  then show "\<not> paused tq" 
    "repeat_count tq = 0 \<or> repeat_count tq = 1 \<and> os_timer_time_remaining s tq = 0"
    using exec_deletes by blast+
qed

theorem paused_timer_skipped_witness:
  "timer_at (demo_sched (demo_timer\<lparr>repeat_count := 0, paused := True\<rparr>)) 1
       = Some (demo_timer\<lparr>repeat_count := 0, paused := True\<rparr>)
   \<and> paused (demo_timer\<lparr>repeat_count := 0, paused := True\<rparr>)
   \<and> distinct (keys (demo_sched (demo_timer\<lparr>repeat_count := 0, paused := True\<rparr>)))
   \<and> os_timer_exec (demo_sched (demo_timer\<lparr>repeat_count := 0, paused := True\<rparr>)) 1
       = Some (False, demo_sched (demo_timer\<lparr>repeat_count := 0, paused := True\<rparr>))
   \<and> (\<exists>s'. handler_repeat 3 (demo_sched (demo_timer\<lparr>repeat_count := 0, paused := True\<rparr>)) = Some s'
          \<and> timer_at s' 1 = Some (demo_timer\<lparr>repeat_count := 0, paused := True\<rparr>))"
proof -
  let ?t = "demo_timer\<lparr>repeat_count := 0, paused := True\<rparr>"
  have h: "timer_at (demo_sched ?t) 1 = Some ?t" "paused ?t"
    by (simp_all add: demo_sched_def timer_at_def)
  have d: "distinct (keys (demo_sched ?t))" by (simp add: keys_def demo_sched_def)
  from paused_timer_skipped[OF h] d h show ?thesis by blast
qed

end
